theory Spec2Isabelle
  imports Complex_Main "HOL-Library.Multiset"
begin

section \<open>Character-level text pipeline of the Shakespeare notebook\<close>

text \<open>
  The notebook \<^verbatim>\<open>Natural Language Processing with RNNs\<close> is a sequence of cells that
  call the Keras \<^verbatim>\<open>Tokenizer\<close>, \<^verbatim>\<open>numpy\<close> and \<^verbatim>\<open>tf.data\<close>. Each cell is embedded
  below under the name the notebook gives its result; the library calls a cell makes are
  embedded after the behaviour of the library routine on the arguments the notebook
  passes (\<^verbatim>\<open>char_level=True\<close>, every other constructor argument at its default).
  The outputs that the notebook records agree with the embedding: decoding
  \<^verbatim>\<open>[[12, 5, 8, 3]]\<close> prints \<^verbatim>\<open>['l a s t']\<close>, the characters joined by spaces;
  \<^verbatim>\<open>distinct_ids\<close> is 39 for a corpus with capital letters; \<^verbatim>\<open>Y_pred[0]\<close> has one
  entry for each of the 39 categories, each a position 0 .. 9 of the ten-character prompt.

  A Python \<^verbatim>\<open>str\<close> is a \<^typ>\<open>string\<close>, and a \<^typ>\<open>char\<close> is one character of
  the \<^verbatim>\<open>str\<close>, given by its code point, which is below 256 (ASCII and Latin-1; the
  corpus of the notebook is ASCII). Python integers are
  \<^typ>\<open>int\<close>; lengths and positions are \<^typ>\<open>nat\<close>. A \<^verbatim>\<open>dict\<close> is an association
  list in insertion order with distinct keys, read with \<^const>\<open>map_of\<close>. A finite
  \<^verbatim>\<open>tf.data.Dataset\<close> is the list of its elements in iteration order.
\<close>

subsection \<open>Tokenizer\<close>

text \<open>
  \<^verbatim>\<open>str.lower\<close> on code points below 256 works character by character: the capital
  letters A .. Z (65 .. 90) and the capital letters of Latin-1 (192 .. 214 and 216 .. 222;
  215 is the multiplication sign) move up by 32 to their small forms, every other
  character stays.
\<close>

definition lower_char :: "char \<Rightarrow> char" where
  "lower_char c =
     (let n = (of_char c :: nat)
      in if 65 \<le> n \<and> n \<le> 90 then char_of (n + 32)
         else if 192 \<le> n \<and> n \<le> 214 then char_of (n + 32)
         else if 216 \<le> n \<and> n \<le> 222 then char_of (n + 32)
         else c)"

definition str_lower :: "string \<Rightarrow> string" where
  "str_lower s = map lower_char s"

text \<open>
  \<^verbatim>\<open>' '.join(vect)\<close>: the words of \<^verbatim>\<open>vect\<close> with the separator between neighbours.
\<close>

fun join :: "'a list \<Rightarrow> 'a list list \<Rightarrow> 'a list" where
  "join sep [] = []"
| "join sep [w] = w"
| "join sep (w # ws) = w @ sep @ join sep ws"

text \<open>
  The fields of a \<^verbatim>\<open>Tokenizer\<close> that the notebook reads or that its methods use on the
  character-level path. \<^verbatim>\<open>num_words\<close> and \<^verbatim>\<open>oov_token\<close> stay \<^verbatim>\<open>None\<close>, so the
  branches they guard are never taken; \<^verbatim>\<open>filters\<close> and \<^verbatim>\<open>split\<close> are used by the
  word-level path only. In character-level mode a word is one character.
\<close>

record tokenizer =
  lower :: bool
  word_counts :: "(char \<times> nat) list"
  word_index :: "(char \<times> int) list"
  index_word :: "(int \<times> char) list"

text \<open>\<^verbatim>\<open>keras.preprocessing.text.Tokenizer(char_level=True)\<close>\<close>

definition Tokenizer :: tokenizer where
  "Tokenizer = \<lparr>lower = True, word_counts = [], word_index = [], index_word = []\<rparr>"

text \<open>
  \<^verbatim>\<open>if w in self.word_counts: self.word_counts[w] += 1 else: self.word_counts[w] = 1\<close>
  on an ordered dictionary: a key that is present keeps its place, a new key goes last.
\<close>

fun count_word :: "(char \<times> nat) list \<Rightarrow> char \<Rightarrow> (char \<times> nat) list" where
  "count_word [] w = [(w, 1)]"
| "count_word ((k, c) # kcs) w =
     (if k = w then (k, c + 1) # kcs else (k, c) # count_word kcs w)"

definition seq_of :: "tokenizer \<Rightarrow> string \<Rightarrow> string" where
  "seq_of tok text = (if lower tok then str_lower text else text)"

text \<open>
  \<^verbatim>\<open>fit_on_texts\<close>: count the characters of every text, sort the counted characters by
  count, largest first (\<^verbatim>\<open>wcounts.sort(key=lambda x: x[1], reverse=True)\<close>, a stable
  sort: characters of equal count stay in first-seen order), and number them from 1.
\<close>

definition fit_on_texts :: "tokenizer \<Rightarrow> string list \<Rightarrow> tokenizer" where
  "fit_on_texts tok texts =
     (let wc = foldl (\<lambda>wc text. foldl count_word wc (seq_of tok text)) (word_counts tok) texts;
          wcounts = sort_key (\<lambda>x. - int (snd x)) wc;
          sorted_voc = map fst wcounts;
          wi = zip sorted_voc (map int [1..<length sorted_voc + 1]);
          iw = map (\<lambda>(w, c). (c, w)) wi
      in tok\<lparr>word_counts := wc, word_index := wi, index_word := iw\<rparr>)"

text \<open>
  \<^verbatim>\<open>texts_to_sequences\<close>: for every character of the (lowercased) text,
  \<^verbatim>\<open>i = self.word_index.get(w)\<close>; the identifier is appended when it is not
  \<^verbatim>\<open>None\<close>, and with \<^verbatim>\<open>oov_token = None\<close> an unknown character appends nothing.
\<close>

definition texts_to_sequences :: "tokenizer \<Rightarrow> string list \<Rightarrow> int list list" where
  "texts_to_sequences tok texts =
     map (\<lambda>text. List.map_filter (map_of (word_index tok)) (seq_of tok text)) texts"

text \<open>
  \<^verbatim>\<open>sequences_to_texts\<close>: for every number, \<^verbatim>\<open>word = self.index_word.get(num)\<close>; the
  word is appended when it is not \<^verbatim>\<open>None\<close>; the words are joined with one space.
\<close>

definition sequences_to_texts :: "tokenizer \<Rightarrow> int list list \<Rightarrow> string list" where
  "sequences_to_texts tok sequences =
     map (\<lambda>seq. join '' '' (map (\<lambda>c. [c]) (List.map_filter (map_of (index_word tok)) seq)))
       sequences"

text \<open>The tokenizer of the notebook after \<^verbatim>\<open>tokenizer.fit_on_texts([text])\<close>.\<close>

definition fitted :: "string \<Rightarrow> tokenizer" where
  "fitted text = fit_on_texts Tokenizer [text]"

text \<open>\<^verbatim>\<open>distinct_ids = len(tokenizer.word_index)\<close>\<close>

definition distinct_ids :: "tokenizer \<Rightarrow> nat" where
  "distinct_ids tok = length (word_index tok)"

text \<open>
  \<^verbatim>\<open>[encoded] = np.array(tokenizer.texts_to_sequences([text])) - 1\<close>: the one
  sequence of the one text, every identifier lowered by one.
\<close>

definition encoded :: "tokenizer \<Rightarrow> string \<Rightarrow> int list" where
  "encoded tok text = map (\<lambda>i. i - 1) (concat (texts_to_sequences tok [text]))"

subsection \<open>Training split and windowing\<close>

text \<open>\<^verbatim>\<open>train_size = len(encoded) * 90 // 100\<close>\<close>

definition train_size :: "'a list \<Rightarrow> nat" where
  "train_size enc = length enc * 90 div 100"

text \<open>\<^verbatim>\<open>tf.data.Dataset.from_tensor_slices(encoded[:train_size])\<close>\<close>

definition from_tensor_slices :: "'a list \<Rightarrow> 'a list" where
  "from_tensor_slices t = t"

definition train_slice :: "'a list \<Rightarrow> 'a list" where
  "train_slice enc = from_tensor_slices (take (train_size enc) enc)"

text \<open>
  \<^verbatim>\<open>Dataset.window(size, shift, drop_remainder)\<close>: one window starts at every position
  that is a multiple of \<^verbatim>\<open>shift\<close>, and holds the next \<^verbatim>\<open>size\<close> elements, or the
  elements that are left; with \<^verbatim>\<open>drop_remainder\<close> the windows shorter than
  \<^verbatim>\<open>size\<close> are dropped. The library rejects \<^verbatim>\<open>size = 0\<close> and \<^verbatim>\<open>shift = 0\<close>;
  the notebook passes \<^verbatim>\<open>n_steps + 1\<close> and \<^verbatim>\<open>1\<close>.
\<close>

definition window :: "nat \<Rightarrow> nat \<Rightarrow> bool \<Rightarrow> 'a list \<Rightarrow> 'a list list" where
  "window wsize shift drop_remainder ds =
     (let ws = map (\<lambda>i. take wsize (drop i ds)) (filter (\<lambda>i. i mod shift = 0) [0..<length ds])
      in if drop_remainder then filter (\<lambda>w. length w = wsize) ws else ws)"

text \<open>
  \<^verbatim>\<open>Dataset.batch(batch_size)\<close>: consecutive groups of \<^verbatim>\<open>batch_size\<close> elements, the
  last group shorter when the elements run out (\<^verbatim>\<open>drop_remainder\<close> is off). The
  library rejects \<^verbatim>\<open>batch_size = 0\<close>.
\<close>

function batch :: "nat \<Rightarrow> 'a list \<Rightarrow> 'a list list" where
  "batch n ds = (if n = 0 \<or> ds = [] then [] else take n ds # batch n (drop n ds))"
  by pat_completeness auto
termination
  by (relation "measure (\<lambda>(n, ds). length ds)") auto

declare batch.simps [simp del]

definition flat_map :: "('a \<Rightarrow> 'b list) \<Rightarrow> 'a list \<Rightarrow> 'b list" where
  "flat_map f ds = concat (map f ds)"

text \<open>
  \<^verbatim>\<open>Dataset.shuffle(buffer_size)\<close>: the buffer is filled with the first
  \<^verbatim>\<open>buffer_size\<close> elements; every step draws a position of the buffer at random, emits
  the element there and puts the next element of the input in its place, or closes the gap
  when the input is used up. The random draws are the function \<open>rnd\<close>: draw number
  \<open>k\<close> picks position \<open>rnd k mod length buf\<close>. A new epoch is a new \<open>rnd\<close>.
\<close>

function shuffle_from :: "(nat \<Rightarrow> nat) \<Rightarrow> nat \<Rightarrow> 'a list \<Rightarrow> 'a list \<Rightarrow> 'a list" where
  "shuffle_from rnd k buf rest =
     (if buf = [] then []
      else let i = rnd k mod length buf in
        (case rest of
           [] \<Rightarrow> buf ! i # shuffle_from rnd (k + 1) (take i buf @ drop (Suc i) buf) []
         | x # xs \<Rightarrow> buf ! i # shuffle_from rnd (k + 1) (buf[i := x]) xs))"
  by pat_completeness auto
termination
proof (relation "measure (\<lambda>(rnd, k, buf, rest). length buf + length rest)", goal_cases)
  case (2 rnd k buf rest m)
  then have "m < length buf"
    by simp
  then have "min (length buf) m + (length buf - Suc m) < length buf"
    by arith
  with 2 show ?case by simp
qed simp_all

declare shuffle_from.simps [simp del]

definition shuffle :: "nat \<Rightarrow> (nat \<Rightarrow> nat) \<Rightarrow> 'a list \<Rightarrow> 'a list" where
  "shuffle buffer_size rnd ds = shuffle_from rnd 0 (take buffer_size ds) (drop buffer_size ds)"

text \<open>
  The dataset after \<^verbatim>\<open>dataset.window(window_length, shift=1, drop_remainder=True)\<close>
  and \<^verbatim>\<open>dataset.flat_map(lambda window: window.batch(window_length))\<close>, with
  \<^verbatim>\<open>window_length = n_steps + 1\<close>.
\<close>

definition windows :: "nat \<Rightarrow> 'a list \<Rightarrow> 'a list list" where
  "windows n_steps ds =
     (let window_length = n_steps + 1
      in flat_map (\<lambda>w. batch window_length w) (window window_length 1 True ds))"

text \<open>\<^verbatim>\<open>dataset.shuffle(10000).batch(batch_size)\<close>, the two sizes as parameters.\<close>

definition shuffled_batches :: "nat \<Rightarrow> nat \<Rightarrow> (nat \<Rightarrow> nat) \<Rightarrow> 'a list \<Rightarrow> 'a list list" where
  "shuffled_batches buffer_size batch_size rnd ds = batch batch_size (shuffle buffer_size rnd ds)"

text \<open>\<^verbatim>\<open>lambda windows: (windows[:, :-1], windows[:, 1:])\<close> on one batch.\<close>

definition split_batch :: "'a list list \<Rightarrow> 'a list list \<times> 'a list list" where
  "split_batch ws = (map butlast ws, map tl ws)"

text \<open>
  \<^verbatim>\<open>tf.one_hot(i, depth)\<close>: a vector of \<^verbatim>\<open>depth\<close> entries, 1 at position \<open>i\<close> and 0
  elsewhere; all 0 when \<open>i\<close> is outside \<open>0 .. depth - 1\<close>.
\<close>

definition one_hot :: "nat \<Rightarrow> int \<Rightarrow> real list" where
  "one_hot depth i = map (\<lambda>k. if int k = i then 1 else 0) [0..<depth]"

text \<open>
  The training dataset of the notebook up to the split into inputs and targets, and the
  one handed to \<^verbatim>\<open>model.fit\<close> (\<^verbatim>\<open>prefetch(1)\<close> changes no element).
\<close>

definition split_dataset ::
  "nat \<Rightarrow> nat \<Rightarrow> nat \<Rightarrow> (nat \<Rightarrow> nat) \<Rightarrow> 'a list \<Rightarrow> ('a list list \<times> 'a list list) list" where
  "split_dataset n_steps buffer_size batch_size rnd enc =
     map split_batch
       (shuffled_batches buffer_size batch_size rnd (windows n_steps (train_slice enc)))"

definition dataset ::
  "nat \<Rightarrow> nat \<Rightarrow> nat \<Rightarrow> nat \<Rightarrow> (nat \<Rightarrow> nat) \<Rightarrow> int list
     \<Rightarrow> (real list list list \<times> int list list) list" where
  "dataset depth n_steps buffer_size batch_size rnd enc =
     map (\<lambda>(X_batch, Y_batch). (map (map (one_hot depth)) X_batch, Y_batch))
       (split_dataset n_steps buffer_size batch_size rnd enc)"

text \<open>The notebook's constants: \<^verbatim>\<open>n_steps = 100\<close>, \<^verbatim>\<open>shuffle(10000)\<close>, \<^verbatim>\<open>batch_size = 32\<close>.\<close>

definition notebook_dataset ::
  "(nat \<Rightarrow> nat) \<Rightarrow> string \<Rightarrow> (real list list list \<times> int list list) list" where
  "notebook_dataset rnd text =
     (let tok = fitted text
      in dataset (distinct_ids tok) 100 10000 32 rnd (encoded tok text))"

subsection \<open>Generation\<close>

datatype py_error = RaggedArray | ArgmaxOfEmpty | IndexError

text \<open>
  \<^verbatim>\<open>preprocess(texts)\<close>. \<^verbatim>\<open>np.array\<close> of sequences of one length is a matrix, also
  when that length is 0: then \<^verbatim>\<open>- 1\<close> and \<^verbatim>\<open>tf.one_hot\<close> give a tensor with no
  position. Of sequences of different lengths \<^verbatim>\<open>np.array\<close> makes no matrix, and the
  cell raises.
\<close>

definition preprocess :: "tokenizer \<Rightarrow> string list \<Rightarrow> py_error + real list list list" where
  "preprocess tok texts =
     (case texts_to_sequences tok texts of
        [] \<Rightarrow> Inr []
      | s # ss \<Rightarrow>
          if list_all (\<lambda>t. length t = length s) ss
          then Inr (map (map (\<lambda>i. one_hot (distinct_ids tok) (i - 1))) (s # ss))
          else Inl RaggedArray)"

text \<open>
  \<^verbatim>\<open>np.argmax\<close> of one vector: the position of the first largest entry. The running
  best value and its position are carried along.
\<close>

fun argmax_from :: "'a::linorder \<Rightarrow> nat \<Rightarrow> nat \<Rightarrow> 'a list \<Rightarrow> nat" where
  "argmax_from best bi i [] = bi"
| "argmax_from best bi i (x # xs) =
     (if best < x then argmax_from x i (i + 1) xs else argmax_from best bi (i + 1) xs)"

definition argmax :: "'a::linorder list \<Rightarrow> py_error + nat" where
  "argmax v = (case v of [] \<Rightarrow> Inl ArgmaxOfEmpty | x # xs \<Rightarrow> Inr (argmax_from x 0 1 xs))"

text \<open>
  \<^verbatim>\<open>np.argmax(a, axis=1)\<close> of an array of shape (samples, positions, categories): for
  every sample and every category, the position with the largest entry. A sample is the
  list of its positions' rows, so the vectors along axis 1 are the columns of the sample,
  and a column that \<^const>\<open>transpose\<close> returns is never empty. An axis of length 0,
  which a sample with no position has, raises
  (\<^verbatim>\<open>attempt to get argmax of an empty sequence\<close>).
\<close>

definition argmax_axis1 :: "'a::linorder list list list \<Rightarrow> py_error + nat list list" where
  "argmax_axis1 a =
     (if [] \<in> set a then Inl ArgmaxOfEmpty
      else Inr (map (\<lambda>sample. map (\<lambda>col. argmax_from (hd col) 0 1 (tl col)) (transpose sample)) a))"

text \<open>
  The generation cell, for one prompt and a model given by its \<^verbatim>\<open>predict\<close> function:
  \<^verbatim>\<open>X_new = preprocess([prompt])\<close>,
  \<^verbatim>\<open>Y_pred = np.argmax(model.predict(X_new), axis=1)\<close>,
  \<^verbatim>\<open>tokenizer.sequences_to_texts(Y_pred + 1)[0][-1]\<close>.
\<close>

definition generate ::
  "(real list list list \<Rightarrow> 'a::linorder list list list) \<Rightarrow> tokenizer \<Rightarrow> string
     \<Rightarrow> py_error + char" where
  "generate predict tok prompt =
     (case preprocess tok [prompt] of
        Inl e \<Rightarrow> Inl e
      | Inr X_new \<Rightarrow>
          (case argmax_axis1 (predict X_new) of
             Inl e \<Rightarrow> Inl e
           | Inr Y_pred \<Rightarrow>
               (case sequences_to_texts tok (map (map (\<lambda>k. int k + 1)) Y_pred) of
                  [] \<Rightarrow> Inl IndexError
                | s # _ \<Rightarrow> if s = [] then Inl IndexError else Inr (last s))))"

section \<open>Properties of the tokenizer\<close>

lemma lower_char_cases:
  obtains (capital) "lower_char c = char_of (of_char c + 32 :: nat)"
      and "(65 \<le> (of_char c :: nat) \<and> (of_char c :: nat) \<le> 90) \<or>
           (192 \<le> (of_char c :: nat) \<and> (of_char c :: nat) \<le> 222)"
    | (other) "lower_char c = c"
      and "(of_char c :: nat) < 65 \<or> (90 < (of_char c :: nat) \<and> (of_char c :: nat) < 192)
           \<or> (of_char c :: nat) = 215 \<or> 222 < (of_char c :: nat)"
proof -
  consider "65 \<le> (of_char c :: nat) \<and> (of_char c :: nat) \<le> 90"
    | "192 \<le> (of_char c :: nat) \<and> (of_char c :: nat) \<le> 214"
    | "216 \<le> (of_char c :: nat) \<and> (of_char c :: nat) \<le> 222"
    | "(of_char c :: nat) < 65 \<or> (90 < (of_char c :: nat) \<and> (of_char c :: nat) < 192)
       \<or> (of_char c :: nat) = 215 \<or> 222 < (of_char c :: nat)"
    by linarith
  then show ?thesis
  proof cases
    case 1
    then show ?thesis by (intro capital) (simp_all add: lower_char_def)
  next
    case 2
    then show ?thesis by (intro capital) (simp_all add: lower_char_def)
  next
    case 3
    then show ?thesis by (intro capital) (simp_all add: lower_char_def)
  next
    case 4
    then have "lower_char c = c"
      by (auto simp: lower_char_def Let_def)
    then show ?thesis using 4 by (intro other)
  qed
qed

lemma of_char_lower_capital:
  assumes "lower_char c = char_of (of_char c + 32 :: nat)"
    and "(65 \<le> (of_char c :: nat) \<and> (of_char c :: nat) \<le> 90) \<or>
         (192 \<le> (of_char c :: nat) \<and> (of_char c :: nat) \<le> 222)"
  shows "(of_char (lower_char c) :: nat) = of_char c + 32"
proof -
  from assms(2) have "(of_char c + 32 :: nat) < 256" by auto
  then show ?thesis
    by (simp add: assms(1))
qed

lemma lower_char_idem: "lower_char (lower_char c) = lower_char c"
proof (cases c rule: lower_char_cases)
  case capital
  then have n: "(of_char (lower_char c) :: nat) = of_char c + 32"
    by (rule of_char_lower_capital)
  with capital(2)
  have "(90 < (of_char (lower_char c) :: nat) \<and> (of_char (lower_char c) :: nat) < 192)
        \<or> 222 < (of_char (lower_char c) :: nat)"
    by auto
  then show ?thesis
    by (auto simp: lower_char_def [of "lower_char c"] Let_def)
next
  case other
  then show ?thesis by simp
qed

lemma lower_char_space: "lower_char CHR '' '' = CHR '' ''"
  by (simp add: lower_char_def)

lemma lower_char_eq_space: "lower_char c = CHR '' '' \<longleftrightarrow> c = CHR '' ''"
proof
  assume h: "lower_char c = CHR '' ''"
  show "c = CHR '' ''"
  proof (cases c rule: lower_char_cases)
    case capital
    then have "(of_char (lower_char c) :: nat) = of_char c + 32"
      by (rule of_char_lower_capital)
    with h capital(2) show ?thesis by auto
  next
    case other
    with h show ?thesis by simp
  qed
qed (simp add: lower_char_space)

lemma space_in_str_lower: "CHR '' '' \<in> set (str_lower s) \<longleftrightarrow> CHR '' '' \<in> set s"
proof
  assume "CHR '' '' \<in> set (str_lower s)"
  then obtain c where "c \<in> set s" and "lower_char c = CHR '' ''"
    by (auto simp: str_lower_def)
  then show "CHR '' '' \<in> set s"
    by (simp add: lower_char_eq_space)
next
  assume "CHR '' '' \<in> set s"
  then have "lower_char CHR '' '' \<in> set (str_lower s)"
    unfolding str_lower_def set_map by (rule imageI)
  then show "CHR '' '' \<in> set (str_lower s)"
    by (simp add: lower_char_space)
qed


lemma fst_count_word:
  "map fst (count_word wc w) = (if w \<in> fst ` set wc then map fst wc else map fst wc @ [w])"
  by (induction wc w rule: count_word.induct) auto

lemma keys_count_words:
  "set (map fst (foldl count_word wc s)) = fst ` set wc \<union> set s"
  by (induction s arbitrary: wc) (auto simp: fst_count_word simp flip: set_map split: if_splits)

lemma distinct_count_words:
  "distinct (map fst wc) \<Longrightarrow> distinct (map fst (foldl count_word wc s))"
  by (induction s arbitrary: wc) (auto simp: fst_count_word)

lemma distinct_keys_sort:
  assumes "distinct (map fst wc)"
  shows "distinct (map fst (sort_key f wc))"
proof -
  have "mset (map fst (sort_key f wc)) = mset (map fst wc)"
    by simp
  then show ?thesis
    using assms by (metis mset_eq_imp_distinct_iff)
qed

lemma word_index_fitted:
  "word_index (fitted corpus) =
     zip (map fst (word_index (fitted corpus)))
       (map int [1..<distinct_ids (fitted corpus) + 1])"
  by (simp add: fitted_def fit_on_texts_def distinct_ids_def Let_def del: upt_Suc)

lemma ids_fitted:
  "map snd (word_index (fitted corpus)) = map int [1..<distinct_ids (fitted corpus) + 1]"
  by (simp add: fitted_def fit_on_texts_def distinct_ids_def Let_def del: upt_Suc)

lemma keys_fitted: "set (map fst (word_index (fitted corpus))) = set (str_lower corpus)"
proof -
  let ?wc = "foldl count_word [] (str_lower corpus)"
  have "map fst (word_index (fitted corpus)) = map fst (sort_key (\<lambda>x. - int (snd x)) ?wc)"
    by (simp add: fitted_def fit_on_texts_def Let_def Tokenizer_def seq_of_def del: upt_Suc)
  moreover have "set (map fst (sort_key (\<lambda>x. - int (snd x)) ?wc)) = set (map fst ?wc)"
    by simp
  moreover have "set (map fst ?wc) = set (str_lower corpus)"
    using keys_count_words [of "[]" "str_lower corpus"] by simp
  ultimately show ?thesis
    by (simp only:)
qed

lemma distinct_keys_fitted: "distinct (map fst (word_index (fitted corpus)))"
  by (simp add: fitted_def fit_on_texts_def Let_def Tokenizer_def seq_of_def
      distinct_keys_sort distinct_count_words del: upt_Suc)

lemma distinct_ids_fitted: "distinct (map snd (word_index (fitted corpus)))"
  by (simp add: ids_fitted distinct_map inj_on_def del: upt_Suc)

lemma index_word_fitted:
  "index_word (fitted corpus) = map (\<lambda>(w, c). (c, w)) (word_index (fitted corpus))"
  by (simp add: fitted_def fit_on_texts_def Let_def)


text \<open>The decoding that the notebook records: the words come back joined by spaces.\<close>

lemma recorded_sequences_to_texts:
  "sequences_to_texts
     (Tokenizer\<lparr>index_word := [(3, CHR ''t''), (5, CHR ''a''), (8, CHR ''s''), (12, CHR ''l'')]\<rparr>)
     [[12, 5, 8, 3]] = [''l a s t'']"
  by code_simp


lemma map_filter_append:
  "List.map_filter f (xs @ ys) = List.map_filter f xs @ List.map_filter f ys"
  by (simp add: List.map_filter_def)

lemma index_word_of_word_index:
  assumes "map_of (word_index (fitted corpus)) c = Some i"
  shows "map_of (index_word (fitted corpus)) i = Some c"
proof -
  from assms have "(c, i) \<in> set (word_index (fitted corpus))"
    by (rule map_of_SomeD)
  then have "(i, c) \<in> set (index_word (fitted corpus))"
    by (force simp: index_word_fitted)
  moreover have "map fst (index_word (fitted corpus)) = map snd (word_index (fitted corpus))"
    by (simp add: index_word_fitted case_prod_unfold)
  then have "distinct (map fst (index_word (fitted corpus)))"
    by (simp add: distinct_ids_fitted)
  ultimately show ?thesis by simp
qed

lemma known_char_is_lower:
  assumes "map_of (word_index (fitted corpus)) c = Some i"
  shows "lower_char c = c"
proof -
  from assms have "c \<in> set (map fst (word_index (fitted corpus)))"
    by (metis map_of_SomeD set_zip_leftD zip_map_fst_snd)
  then have "c \<in> set (str_lower corpus)"
    by (simp only: keys_fitted)
  then show ?thesis
    by (auto simp: str_lower_def lower_char_idem)
qed

lemma space_known_iff:
  "map_of (word_index (fitted corpus)) CHR '' '' = None \<longleftrightarrow> CHR '' '' \<notin> set corpus"
proof -
  have "map_of (word_index (fitted corpus)) CHR '' '' = None \<longleftrightarrow>
        CHR '' '' \<notin> set (map fst (word_index (fitted corpus)))"
    by (simp add: map_of_eq_None_iff)
  then show ?thesis
    by (simp only: keys_fitted space_in_str_lower)
qed

lemma decode_encode:
  "List.map_filter (map_of (index_word (fitted corpus)))
     (List.map_filter (map_of (word_index (fitted corpus))) u) =
   filter (\<lambda>c. map_of (word_index (fitted corpus)) c \<noteq> None) u"
  by (induction u) (auto simp: index_word_of_word_index)

lemma encode_known:
  "List.map_filter g (filter (\<lambda>c. g c \<noteq> None) u) = List.map_filter g u"
  by (induction u) auto

lemma str_lower_join:
  assumes "\<forall>c \<in> set cs. lower_char c = c"
  shows "str_lower (join '' '' (map (\<lambda>c. [c]) cs)) = join '' '' (map (\<lambda>c. [c]) cs)"
  using assms by (induction cs rule: induct_list012) (simp_all add: str_lower_def lower_char_space)

lemma encode_join_no_space:
  assumes "g CHR '' '' = None"
  shows "List.map_filter g (join '' '' (map (\<lambda>c. [c]) cs)) = List.map_filter g cs"
  using assms by (induction cs rule: induct_list012) (simp_all split: option.splits)

lemma encode_join_space:
  assumes "g CHR '' '' = Some sp" and "\<forall>c \<in> set cs. g c \<noteq> None"
  shows "List.map_filter g (join '' '' (map (\<lambda>c. [c]) cs)) =
         join [sp] (map (\<lambda>i. [i]) (List.map_filter g cs))"
  using assms by (induction cs rule: induct_list012) auto

lemma roundtrip_one:
  fixes corpus t :: string
  defines "tok \<equiv> fitted corpus"
  defines "s \<equiv> List.map_filter (map_of (word_index tok)) (seq_of tok t)"
  shows "List.map_filter (map_of (word_index tok))
           (seq_of tok (join '' '' (map (\<lambda>c. [c]) (List.map_filter (map_of (index_word tok)) s)))) =
         (case map_of (word_index tok) CHR '' '' of
            None \<Rightarrow> s
          | Some sp \<Rightarrow> join [sp] (map (\<lambda>i. [i]) s))"
proof -
  let ?g = "map_of (word_index tok)"
  define cs where "cs = filter (\<lambda>c. ?g c \<noteq> None) (seq_of tok t)"
  have dec: "List.map_filter (map_of (index_word tok)) s = cs"
    by (simp add: s_def cs_def tok_def decode_encode)
  have known: "\<forall>c \<in> set cs. ?g c \<noteq> None"
    by (simp add: cs_def)
  then have "\<forall>c \<in> set cs. lower_char c = c"
    using known_char_is_lower [of corpus] by (auto simp: tok_def)
  then have low: "seq_of tok (join '' '' (map (\<lambda>c. [c]) cs)) = join '' '' (map (\<lambda>c. [c]) cs)"
    by (simp add: seq_of_def str_lower_join)
  have enc: "List.map_filter ?g cs = s"
    unfolding cs_def s_def by (rule encode_known)
  show ?thesis
  proof (cases "?g CHR '' ''")
    case None
    then show ?thesis
      by (simp add: dec low encode_join_no_space enc)
  next
    case (Some sp)
    then show ?thesis
      using known by (simp add: dec low encode_join_space enc)
  qed
qed

text \<open>
  Claim C1, as the code has it. Decoding joins the characters with single spaces, so
  encoding the decoded text gives back the original sequence exactly when the corpus
  holds no space; when it holds one, the identifier of the space stands between every
  two neighbours of the original sequence.
\<close>

theorem reencoding_decoded_text:
  fixes corpus :: string
  defines "tok \<equiv> fitted corpus"
  shows "texts_to_sequences tok (sequences_to_texts tok (texts_to_sequences tok texts)) =
           map (\<lambda>s. case map_of (word_index tok) CHR '' '' of
                       None \<Rightarrow> s
                     | Some sp \<Rightarrow> join [sp] (map (\<lambda>i. [i]) s))
             (texts_to_sequences tok texts)
         \<and> (map_of (word_index tok) CHR '' '' = None) = (CHR '' '' \<notin> set corpus)"
proof -
  have "texts_to_sequences tok (sequences_to_texts tok (texts_to_sequences tok texts)) =
           map (\<lambda>s. case map_of (word_index tok) CHR '' '' of
                       None \<Rightarrow> s
                     | Some sp \<Rightarrow> join [sp] (map (\<lambda>i. [i]) s))
             (texts_to_sequences tok texts)"
    unfolding texts_to_sequences_def sequences_to_texts_def tok_def
    by (simp add: roundtrip_one comp_def)
  then show ?thesis
    by (simp add: tok_def space_known_iff)
qed

text \<open>
  Claim C1 as stated fails for the corpus \<open>a b\<close>: its encoding is 1, 2, 3, the decoded
  text has three spaces between the letters, and encoding that gives 1, 2, 2, 2, 3.
\<close>

theorem reencoding_decoded_text_counterexample:
  "texts_to_sequences (fitted ''a b'') [''a b''] = [[1, 2, 3]] \<and>
   sequences_to_texts (fitted ''a b'') (texts_to_sequences (fitted ''a b'') [''a b'']) =
     [''a   b''] \<and>
   texts_to_sequences (fitted ''a b'')
     (sequences_to_texts (fitted ''a b'') (texts_to_sequences (fitted ''a b'') [''a b''])) =
     [[1, 2, 2, 2, 3]]"
  by code_simp

text \<open>
  The vocabulary after fitting: the number of identifiers is the number of distinct
  characters of the lowercased corpus; the characters that have an identifier are the
  lowercase forms of the characters of the corpus, each once; the identifiers are
  1 .. \<open>distinct_ids\<close> in order; the inverse dictionary is the same pairs turned around.
\<close>

lemma vocabulary_of_lowercased_corpus:
  "distinct_ids (fitted corpus) = card (set (str_lower corpus)) \<and>
   fst ` set (word_index (fitted corpus)) = lower_char ` set corpus \<and>
   distinct (map fst (word_index (fitted corpus))) \<and>
   map snd (word_index (fitted corpus)) = map int [1..<distinct_ids (fitted corpus) + 1] \<and>
   index_word (fitted corpus) = map (\<lambda>(w, c). (c, w)) (word_index (fitted corpus))"
proof -
  have "card (set (map fst (word_index (fitted corpus)))) = length (map fst (word_index (fitted corpus)))"
    using distinct_keys_fitted by (rule distinct_card)
  then have "distinct_ids (fitted corpus) = card (set (str_lower corpus))"
    by (simp only: keys_fitted distinct_ids_def length_map)
  moreover have "fst ` set (word_index (fitted corpus)) = lower_char ` set corpus"
    using keys_fitted [of corpus] by (simp add: str_lower_def)
  ultimately show ?thesis
    using distinct_keys_fitted ids_fitted index_word_fitted by blast
qed

text \<open>
  Claim C5 at the corpus \<open>Aa\<close>. The corpus has two distinct characters; the notebook
  reads \<^verbatim>\<open>len(tokenizer.word_index)\<close> as the number of distinct characters, and it is 1:
  the tokenizer, left at \<^verbatim>\<open>lower=True\<close>, has counted \<open>A\<close> as \<open>a\<close>.
\<close>

theorem distinct_ids_counts_lowercased:
  "card (set ''Aa'') = 2 \<and> distinct_ids (fitted ''Aa'') = 1 \<and>
   word_index (fitted ''Aa'') = [(CHR ''a'', 1)]"
  by code_simp

text \<open>
  Claim C7, as the code has it. Fitting on the empty corpus raises nothing: it yields
  the vocabulary with no identifier, under which every text encodes to the empty sequence.
\<close>

theorem empty_corpus_empty_vocabulary:
  "word_index (fitted '''') = [] \<and> index_word (fitted '''') = [] \<and>
   distinct_ids (fitted '''') = 0 \<and>
   texts_to_sequences (fitted '''') texts = map (\<lambda>text. []) texts"
  by (simp add: fitted_def fit_on_texts_def Tokenizer_def seq_of_def str_lower_def
      distinct_ids_def texts_to_sequences_def List.map_filter_def)

text \<open>Claim C7 as stated fails: fitting on the empty text returns a tokenizer.\<close>

theorem empty_corpus_counterexample:
  "fit_on_texts Tokenizer [''''] =
     \<lparr>lower = True, word_counts = [], word_index = [], index_word = []\<rparr>"
  by (simp add: fit_on_texts_def Tokenizer_def seq_of_def str_lower_def)




section \<open>Properties of the windowing pipeline\<close>

lemma filter_less_upt: "filter (\<lambda>i. i < m) [0..<n] = [0..<min m n]"
proof (induction n)
  case 0
  show ?case by simp
next
  case (Suc n)
  show ?case
  proof (cases "n < m")
    case True
    then have "min m (Suc n) = Suc n" "min m n = n" by simp_all
    with Suc True show ?thesis by simp
  next
    case False
    then have "min m (Suc n) = m" "min m n = m" by simp_all
    with Suc False show ?thesis by simp
  qed
qed

lemma batch_Nil: "batch n [] = []"
  by (simp add: batch.simps)

lemma batch_one: "w \<noteq> [] \<Longrightarrow> length w \<le> n \<Longrightarrow> batch n w = [w]"
proof -
  assume w: "w \<noteq> []" "length w \<le> n"
  then have "0 < n" by (cases w) auto
  with w show ?thesis
    by (subst batch.simps) (simp add: batch_Nil)
qed

lemma window_full:
  "window (Suc L) (Suc 0) True ds = map (\<lambda>j. take (Suc L) (drop j ds)) [0..<length ds - L]"
proof -
  have "(\<lambda>i. length (take (Suc L) (drop i ds)) = Suc L) = (\<lambda>i. i < length ds - L)"
    by (rule ext) (simp add: min_def; arith)
  then show ?thesis
    by (simp add: window_def filter_map comp_def filter_less_upt min_def)
qed

lemma windows_eq:
  "windows L ds = map (\<lambda>j. take (Suc L) (drop j ds)) [0..<length ds - L]"
proof -
  have one: "concat (map (batch (Suc L)) ws) = ws" if "\<forall>w \<in> set ws. length w = Suc L"
    for ws :: "'a list list"
  proof -
    have "batch (Suc L) w = [w]" if "length w = Suc L" for w :: "'a list"
      using that by (intro batch_one) auto
    with that show ?thesis by (induction ws) auto
  qed
  have "\<forall>w \<in> set (window (Suc L) (Suc 0) True ds). length w = Suc L"
    by (simp add: window_def)
  then have "concat (map (batch (Suc L)) (window (Suc L) (Suc 0) True ds)) =
             window (Suc L) (Suc 0) True ds"
    by (rule one)
  then show ?thesis
    by (simp add: windows_def flat_map_def window_full)
qed

lemma concat_batch: "0 < n \<Longrightarrow> concat (batch n ds) = ds"
proof (induction n ds rule: batch.induct)
  case (1 n ds)
  then show ?case
    by (subst batch.simps) auto
qed

lemma mset_shuffle_from:
  "(buf = [] \<longrightarrow> rest = []) \<Longrightarrow> mset (shuffle_from rnd k buf rest) = mset buf + mset rest"
proof (induction rnd k buf rest rule: shuffle_from.induct)
  case (1 rnd k buf rest)
  show ?case
  proof (cases "buf = []")
    case True
    with 1(3) show ?thesis by (simp add: shuffle_from.simps)
  next
    case False
    define i where "i = rnd k mod length buf"
    have i: "i < length buf" using False by (simp add: i_def)
    show ?thesis
    proof (cases rest)
      case Nil
      have "mset (shuffle_from rnd (k + 1) (take i buf @ drop (Suc i) buf) []) =
            mset (take i buf @ drop (Suc i) buf)"
        using 1(1)[OF False i_def Nil] by simp
      moreover have "mset buf = add_mset (buf ! i) (mset (take i buf @ drop (Suc i) buf))"
        using id_take_nth_drop[OF i] by (metis mset.simps(2) mset_append union_mset_add_mset_right)
      ultimately show ?thesis
        using False Nil by (subst shuffle_from.simps) (simp add: i_def Let_def)
    next
      case (Cons x xs)
      have nonempty: "buf[i := x] \<noteq> []" using False by simp
      have "mset (shuffle_from rnd (k + 1) (buf[i := x]) xs) = mset (buf[i := x]) + mset xs"
        using 1(2)[OF False i_def Cons] nonempty by simp
      moreover have "add_mset (buf ! i) (mset (buf[i := x])) = add_mset x (mset buf)"
        using i by (simp add: mset_update)
      ultimately show ?thesis
        using False Cons by (subst shuffle_from.simps) (simp add: i_def Let_def)
    qed
  qed
qed

lemma mset_shuffle: "0 < S \<Longrightarrow> mset (shuffle S rnd ds) = mset ds"
proof -
  assume "0 < S"
  then have "take S ds = [] \<longrightarrow> drop S ds = []" by (cases ds) auto
  then have "mset (shuffle S rnd ds) = mset (take S ds) + mset (drop S ds)"
    unfolding shuffle_def by (rule mset_shuffle_from)
  also have "\<dots> = mset ds"
    by (metis append_take_drop_id mset_append)
  finally show ?thesis .
qed

lemma set_shuffle_from: "set (shuffle_from rnd k buf rest) \<subseteq> set buf \<union> set rest"
proof (induction rnd k buf rest rule: shuffle_from.induct)
  case (1 rnd k buf rest)
  show ?case
  proof (cases "buf = []")
    case True
    then show ?thesis by (simp add: shuffle_from.simps)
  next
    case False
    define i where "i = rnd k mod length buf"
    have i: "i < length buf" using False by (simp add: i_def)
    show ?thesis
    proof (cases rest)
      case Nil
      have "set (shuffle_from rnd (k + 1) (take i buf @ drop (Suc i) buf) []) \<subseteq>
            set (take i buf @ drop (Suc i) buf)"
        using 1(1)[OF False i_def Nil] by simp
      moreover have "set (take i buf @ drop (Suc i) buf) \<subseteq> set buf"
        using set_take_subset set_drop_subset by fastforce
      moreover have "buf ! i \<in> set buf" using i by simp
      ultimately show ?thesis
        using False Nil by (subst shuffle_from.simps) (auto simp: i_def Let_def)
    next
      case (Cons x xs)
      have "set (shuffle_from rnd (k + 1) (buf[i := x]) xs) \<subseteq> set (buf[i := x]) \<union> set xs"
        using 1(2)[OF False i_def Cons] by simp
      moreover have "set (buf[i := x]) \<subseteq> insert x (set buf)"
        by (rule set_update_subset_insert)
      moreover have "buf ! i \<in> set buf" using i by simp
      ultimately show ?thesis
        using False Cons by (subst shuffle_from.simps) (auto simp: i_def Let_def)
    qed
  qed
qed

lemma set_shuffle: "set (shuffle S rnd ds) \<subseteq> set ds"
proof -
  have "set (shuffle S rnd ds) \<subseteq> set (take S ds) \<union> set (drop S ds)"
    unfolding shuffle_def by (rule set_shuffle_from)
  also have "\<dots> = set ds"
    by (metis append_take_drop_id set_append)
  finally show ?thesis .
qed

lemma set_batch: "b \<in> set (batch n ds) \<Longrightarrow> set b \<subseteq> set ds"
proof (induction n ds rule: batch.induct)
  case (1 n ds)
  show ?case
  proof (cases "n = 0 \<or> ds = []")
    case True
    with 1(2) show ?thesis by (simp add: batch.simps)
  next
    case False
    from 1(2) False have "b = take n ds \<or> b \<in> set (batch n (drop n ds))"
      by (subst (asm) batch.simps) auto
    then show ?thesis
    proof
      assume "b = take n ds"
      then show ?thesis by (simp add: set_take_subset)
    next
      assume "b \<in> set (batch n (drop n ds))"
      then have "set b \<subseteq> set (drop n ds)" using 1(1) False by simp
      then show ?thesis using set_drop_subset by fastforce
    qed
  qed
qed


lemma train_size_le: "train_size enc \<le> length enc"
  by (simp add: train_size_def)

lemma length_train_slice: "length (train_slice enc) = train_size enc"
  by (simp add: train_slice_def from_tensor_slices_def train_size_le)

lemma window_of_train_slice:
  assumes "j < length (train_slice enc) - L"
  shows "take (Suc L) (drop j (train_slice enc)) = take (Suc L) (drop j enc)"
proof -
  from assms have "Suc L \<le> train_size enc - j"
    by (simp add: length_train_slice)
  then show ?thesis
    by (simp add: train_slice_def from_tensor_slices_def drop_take min_def)
qed

lemma batched_window:
  assumes "b \<in> set (shuffled_batches S B rnd (windows L ds))" and "w \<in> set b"
  shows "\<exists>j. j < length ds - L \<and> w = take (Suc L) (drop j ds)"
proof -
  from assms have "w \<in> set (shuffle S rnd (windows L ds))"
    unfolding shuffled_batches_def using set_batch [of b] by blast
  then have "w \<in> set (windows L ds)"
    using set_shuffle [of S rnd "windows L ds"] by auto
  then show ?thesis
    by (auto simp: windows_eq)
qed

text \<open>
  Claim C3, as the code has it. The windowing cells are applied to the training slice,
  the first T = N * 90 div 100 elements of the encoded corpus of length N, and yield
  T - L windows (none when T is below L, the difference being one of natural numbers);
  a sequence of length M handed to the windowing cells as it is yields M - L windows.
\<close>

theorem training_windows_count:
  "length (windows L (train_slice enc)) = train_size enc - L \<and>
   train_size enc = length enc * 90 div 100 \<and>
   int (length (windows L (train_slice enc))) =
     max 0 (int (length enc) * 90 div 100 - int L) \<and>
   length (windows L ds) = length ds - L"
proof -
  have "length (windows L (train_slice enc)) = train_size enc - L"
    by (simp add: windows_eq length_train_slice)
  moreover have "int (train_size enc - L) = max 0 (int (length enc) * 90 div 100 - int L)"
    by (simp add: train_size_def zdiv_int)
  moreover have "length (windows L ds) = length ds - L"
    by (simp add: windows_eq)
  ultimately show ?thesis
    by (simp add: train_size_def)
qed

text \<open>
  Claim C3 as stated fails for the corpus \<open>abcabc\<close> with L = 2: the encoded corpus has
  6 elements, the training slice has 5, and the windowing cells yield 3 windows, not 4.
\<close>

theorem training_windows_count_counterexample:
  "encoded (fitted ''abcabc'') ''abcabc'' = [0, 1, 2, 0, 1, 2] \<and>
   train_slice (encoded (fitted ''abcabc'') ''abcabc'') = [0, 1, 2, 0, 1] \<and>
   windows 2 (train_slice (encoded (fitted ''abcabc'') ''abcabc'')) =
     [[0, 1, 2], [1, 2, 0], [2, 0, 1]]"
  by code_simp

subsection \<open>Shuffling and batching\<close>

text \<open>
  Claim C8. With a shuffle buffer and a batch size that are not zero, and whatever the
  random draws of the epoch are, the windows of all batches of the epoch, taken together
  as a multiset, are the windows of the training sequence at the start positions
  0 .. N - L - 1; the same holds for the (input, target) pairs after the split.
\<close>

theorem epoch_presents_every_window:
  assumes "0 < buffer_size" and "0 < batch_size"
  shows "mset (concat (shuffled_batches buffer_size batch_size rnd
                 (windows n_steps (train_slice enc)))) =
         mset (map (\<lambda>j. take (n_steps + 1) (drop j (train_slice enc)))
                 [0..<length (train_slice enc) - n_steps])
       \<and> mset (concat (map (\<lambda>(X_batch, Y_batch). zip X_batch Y_batch)
                 (split_dataset n_steps buffer_size batch_size rnd enc))) =
         mset (map (\<lambda>w. (butlast w, tl w)) (windows n_steps (train_slice enc)))"
proof -
  let ?ws = "windows n_steps (train_slice enc)"
  let ?bs = "shuffled_batches buffer_size batch_size rnd ?ws"
  have c: "concat ?bs = shuffle buffer_size rnd ?ws"
    using assms(2) by (simp add: shuffled_batches_def concat_batch)
  then have m: "mset (concat ?bs) = mset ?ws"
    using assms(1) by (simp add: mset_shuffle)
  have "concat (map (\<lambda>(X_batch, Y_batch). zip X_batch Y_batch) (map split_batch bs)) =
        map (\<lambda>w. (butlast w, tl w)) (concat bs)" for bs :: "'a list list list"
    by (induction bs) (simp_all add: split_batch_def zip_map_map zip_same_conv_map)
  then have "mset (concat (map (\<lambda>(X_batch, Y_batch). zip X_batch Y_batch)
                 (split_dataset n_steps buffer_size batch_size rnd enc))) =
             image_mset (\<lambda>w. (butlast w, tl w)) (mset (concat ?bs))"
    by (simp add: split_dataset_def)
  then have pairs: "mset (concat (map (\<lambda>(X_batch, Y_batch). zip X_batch Y_batch)
                 (split_dataset n_steps buffer_size batch_size rnd enc))) =
             mset (map (\<lambda>w. (butlast w, tl w)) ?ws)"
    by (simp only: m mset_map)
  have "?ws = map (\<lambda>j. take (n_steps + 1) (drop j (train_slice enc)))
                 [0..<length (train_slice enc) - n_steps]"
    by (simp add: windows_eq)
  then have "mset (concat ?bs) =
         mset (map (\<lambda>j. take (n_steps + 1) (drop j (train_slice enc)))
                 [0..<length (train_slice enc) - n_steps])"
    using m by (rule subst)
  with pairs show ?thesis by (intro conjI)
qed

text \<open>Claim C8 at a buffer of 3, batches of 2 and a sequence of ten identifiers.\<close>

theorem epoch_presents_every_window_witness:
  "(0::nat) < 3 \<and> (0::nat) < 2 \<and>
   mset (concat (shuffled_batches 3 2 (\<lambda>k. 7 * k + 2)
           (windows 2 (train_slice [0, 1, 2, 0, 1, 2, 0, 1, 2, 3 :: int])))) =
   mset (map (\<lambda>j. take (2 + 1) (drop j (train_slice [0, 1, 2, 0, 1, 2, 0, 1, 2, 3 :: int])))
           [0..<length (train_slice [0, 1, 2, 0, 1, 2, 0, 1, 2, 3 :: int]) - 2])"
proof -
  have b: "(0::nat) < 3" and c: "(0::nat) < 2"
    by simp_all
  from epoch_presents_every_window [OF b c, of "\<lambda>k. 7 * k + 2" 2
      "[0, 1, 2, 0, 1, 2, 0, 1, 2, 3 :: int]"] b c
  show ?thesis by blast
qed

text \<open>
  Claim C10. The training size is \<open>N * 90 div 100\<close>, and every window of every batch is
  the slice of the encoded corpus at some start \<open>j\<close> with \<open>j + L + 1\<close> at most the
  training size: each of its positions lies before the training size.
\<close>

theorem training_windows_in_train_prefix:
  assumes "b \<in> set (shuffled_batches buffer_size batch_size rnd
                     (windows n_steps (train_slice enc)))"
    and "w \<in> set b"
  shows "train_size enc = length enc * 90 div 100 \<and>
         (\<exists>j. j + (n_steps + 1) \<le> train_size enc \<and>
              w = take (n_steps + 1) (drop j enc) \<and>
              (\<forall>i \<le> n_steps. j + i < train_size enc \<and> w ! i = enc ! (j + i)))"
proof -
  from batched_window [OF assms] obtain j
    where j: "j < length (train_slice enc) - n_steps"
      and w: "w = take (Suc n_steps) (drop j (train_slice enc))"
    by blast
  from j have le: "j + (n_steps + 1) \<le> train_size enc"
    by (simp add: length_train_slice)
  from w j have w': "w = take (n_steps + 1) (drop j enc)"
    by (simp add: window_of_train_slice)
  have "j + i < train_size enc \<and> w ! i = enc ! (j + i)" if "i \<le> n_steps" for i
  proof -
    from that le have "j + i < train_size enc" by simp
    moreover from this have "j + i < length enc"
      using train_size_le [of enc] by simp
    ultimately show ?thesis using that w' by simp
  qed
  with le w' show ?thesis
    by (auto simp: train_size_def)
qed

text \<open>Claim C10 at the first batch of a ten-element corpus, whose training size is 9.\<close>

theorem training_windows_in_train_prefix_witness:
  "[[12, 13, 14], [10, 11, 12]] \<in> set (shuffled_batches 3 2 (\<lambda>k. 7 * k + 2)
      (windows 2 (train_slice [10, 11, 12, 13, 14, 15, 16, 17, 18, 19 :: int])))
   \<and> [12, 13, 14] \<in> set [[12, 13, 14], [10, 11, 12 :: int]]
   \<and> train_size [10, 11, 12, 13, 14, 15, 16, 17, 18, 19 :: int] = 9
   \<and> (\<exists>j. j + (2 + 1) \<le> train_size [10, 11, 12, 13, 14, 15, 16, 17, 18, 19 :: int] \<and>
          [12, 13, 14] = take (2 + 1) (drop j [10, 11, 12, 13, 14, 15, 16, 17, 18, 19 :: int]))"
proof -
  have b: "[[12, 13, 14], [10, 11, 12]] \<in> set (shuffled_batches 3 2 (\<lambda>k. 7 * k + 2)
      (windows 2 (train_slice [10, 11, 12, 13, 14, 15, 16, 17, 18, 19 :: int])))"
    by code_simp
  have w: "[12, 13, 14] \<in> set [[12, 13, 14], [10, 11, 12 :: int]]"
    by simp
  have t: "train_size [10, 11, 12, 13, 14, 15, 16, 17, 18, 19 :: int] = 9"
    by (simp add: train_size_def)
  from training_windows_in_train_prefix [OF b w] b w t show ?thesis
    by blast
qed

text \<open>
  Claim C4. Every row \<open>r\<close> of an (input, target) batch comes from one window \<open>w\<close> of
  length L + 1 of the training sequence: the input is positions 0 .. L - 1 of \<open>w\<close>, the
  target is positions 1 .. L, and the target at \<open>i\<close> is the input at \<open>i + 1\<close>.
\<close>

theorem target_is_input_shifted:
  assumes "(X_batch, Y_batch) \<in> set (split_dataset n_steps buffer_size batch_size rnd enc)"
    and "r < length X_batch"
  shows "length Y_batch = length X_batch \<and>
         (\<exists>w \<in> set (windows n_steps (train_slice enc)).
            length w = n_steps + 1 \<and>
            X_batch ! r = take n_steps w \<and> Y_batch ! r = drop 1 w \<and>
            (\<forall>i < n_steps. X_batch ! r ! i = w ! i \<and> Y_batch ! r ! i = w ! (i + 1)) \<and>
            (\<forall>i. i + 1 < n_steps \<longrightarrow> Y_batch ! r ! i = X_batch ! r ! (i + 1)))"
proof -
  let ?ws = "windows n_steps (train_slice enc)"
  from assms(1) obtain b
    where b: "b \<in> set (shuffled_batches buffer_size batch_size rnd ?ws)"
      and X: "X_batch = map butlast b" and Y: "Y_batch = map tl b"
    by (auto simp: split_dataset_def split_batch_def)
  from assms(2) X have r: "r < length b" by simp
  define w where "w = b ! r"
  from r have "w \<in> set b" by (simp add: w_def)
  from batched_window [OF b this] have mem: "w \<in> set ?ws" and len: "length w = n_steps + 1"
    by (auto simp: windows_eq)
  have Xr: "X_batch ! r = take n_steps w"
    using r len by (simp add: X w_def butlast_conv_take)
  have Yr: "Y_batch ! r = drop 1 w"
    using r by (simp add: Y w_def drop_Suc)
  have "X_batch ! r ! i = w ! i \<and> Y_batch ! r ! i = w ! (i + 1)" if "i < n_steps" for i
    using that len by (simp add: Xr Yr)
  moreover have "Y_batch ! r ! i = X_batch ! r ! (i + 1)" if "i + 1 < n_steps" for i
    using that len by (simp add: Xr Yr)
  ultimately show ?thesis
    using mem len Xr Yr X Y by auto
qed

text \<open>Claim C4 at the first row of the first batch of the ten-element corpus.\<close>

theorem target_is_input_shifted_witness:
  "([[12, 13], [10, 11]], [[13, 14], [11, 12]]) \<in>
      set (split_dataset 2 3 2 (\<lambda>k. 7 * k + 2) [10, 11, 12, 13, 14, 15, 16, 17, 18, 19 :: int])
   \<and> (0::nat) < length [[12, 13], [10, 11 :: int]]
   \<and> (\<exists>w \<in> set (windows 2 (train_slice [10, 11, 12, 13, 14, 15, 16, 17, 18, 19 :: int])).
         length w = 2 + 1 \<and>
         [[12, 13], [10, 11]] ! 0 = take 2 w \<and> [[13, 14], [11, 12]] ! 0 = drop 1 w)"
proof -
  have p: "([[12, 13], [10, 11]], [[13, 14], [11, 12]]) \<in>
      set (split_dataset 2 3 2 (\<lambda>k. 7 * k + 2) [10, 11, 12, 13, 14, 15, 16, 17, 18, 19 :: int])"
    by code_simp
  have r: "(0::nat) < length [[12, 13], [10, 11 :: int]]"
    by simp
  from target_is_input_shifted [OF p r] p r show ?thesis
    by blast
qed


section \<open>Properties of the generation cell\<close>







text \<open>
  Claim C2 at the prompt \<open>bb\<close>, the vocabulary of \<open>aab\<close> and a model that returns its
  input. At the last position the largest entry is that of category 1, the character
  \<open>b\<close>. \<^verbatim>\<open>np.argmax(..., axis=1)\<close> runs over the positions instead: it yields, for
  either category, position 0, which is decoded as identifier 1, and the call returns
  \<open>a\<close>.
\<close>

theorem generate_argmax_over_positions:
  "word_index (fitted ''aab'') = [(CHR ''a'', 1), (CHR ''b'', 2)] \<and>
   preprocess (fitted ''aab'') [''bb''] = Inr [[[0, 1], [0, 1]]] \<and>
   argmax (last [[0, 1], [0, 1 :: real]]) = Inr 1 \<and>
   argmax_axis1 [[[0, 1], [0, 1 :: real]]] = Inr [[0, 0]] \<and>
   sequences_to_texts (fitted ''aab'') [[0 + 1, 0 + 1]] = [''a a''] \<and>
   generate (\<lambda>X. X) (fitted ''aab'') ''bb'' = Inr CHR ''a''"
  by code_simp


end
